theory Spec2Isabelle
  imports Main
begin

section \<open>The thread backend of for-each: data model\<close>

text \<open>
  The header \<^verbatim>\<open>pstl/internal/thread/par_for_each.h\<close> is a template over the iterator
  type \<^verbatim>\<open>Iter\<close> and the callable type \<^verbatim>\<open>F\<close>.

  \<^item> An iterator is modelled by its position in the underlying sequence, a natural
    number: \<^verbatim>\<open>++\<close> adds one, \<^verbatim>\<open>std::advance(it, k)\<close> adds \<open>k\<close>, \<^verbatim>\<open>==\<close> compares
    positions, and \<^verbatim>\<open>*it\<close> reads the element at the position through a function
    \<open>deref\<close>. The end of the underlying container is not part of the model: a walk that
    misses its sentinel goes on for ever.
  \<^item> \<^verbatim>\<open>std::size_t\<close> is modelled by \<open>nat\<close>: lengths are taken to be below the limit of
    the type, where no operation of the header wraps.
  \<^item> The callable is a state transformer \<open>f :: 'a \<Rightarrow> 's \<Rightarrow> 's\<close> with a state \<open>s\<close> of its
    own: one call \<^verbatim>\<open>f(x)\<close> turns \<open>s\<close> into \<open>f x s\<close>. \<^verbatim>\<open>F\<close> is passed by value
    everywhere, so every walk starts on a copy of the caller's callable.
  \<^item> What the language leaves undefined is a value of type \<open>fault\<close>, and a computation
    that does not return is \<open>None\<close>.
\<close>

type_synonym iter = nat

datatype fault = MalformedRange | DivisionByZero | OutOfBounds

text \<open>What a call hands back to its caller: nothing, or an iterator.\<close>

datatype retval = Void | Returned iter

text \<open>The two execution policies a caller can ask for.\<close>

datatype execution_policy = sequenced_policy | parallel_policy

text \<open>
  What one call of the algorithm did: the final callable state of each worker thread, in
  the order the threads were started, or the final callable state of the one inline walk.
\<close>

datatype 's effect = Workers "'s list" | Inline 's

subsection \<open>Library operations\<close>

text \<open>\<^verbatim>\<open>operator[]\<close> of \<^verbatim>\<open>std::vector\<close>, read and write; an index past the size is a fault.\<close>

definition vget :: "'v list \<Rightarrow> nat \<Rightarrow> fault + 'v" where
  "vget v i = (if i < length v then Inr (v ! i) else Inl OutOfBounds)"

definition vset :: "'v list \<Rightarrow> nat \<Rightarrow> 'v \<Rightarrow> fault + 'v list" where
  "vset v i x = (if i < length v then Inr (v[i := x]) else Inl OutOfBounds)"

text \<open>
  \<^verbatim>\<open>std::distance(first, sent)\<close> stored in a \<^verbatim>\<open>std::size_t\<close>: the number of steps
  from \<open>first\<close> to \<open>sent\<close>; a sentinel before \<open>first\<close> has no such number.
\<close>

definition distance :: "iter \<Rightarrow> iter \<Rightarrow> fault + nat" where
  "distance first sent = (if first \<le> sent then Inr (sent - first) else Inl MalformedRange)"

definition advance :: "iter \<Rightarrow> nat \<Rightarrow> iter" where
  "advance it k = it + k"

text \<open>A value-initialised iterator, the content of a fresh \<^verbatim>\<open>std::vector<Iter>\<close>.\<close>

definition default_iter :: iter where
  "default_iter = 0"

text \<open>
  \<^verbatim>\<open>ThreadExecutor::get_num_exec_unit()\<close> is declared in \<^verbatim>\<open>executor.h\<close>, which is not
  among the sources. It is a parameter of the model: \<open>prov k\<close> is the answer to the query
  number \<open>k\<close>, and the number of queries made so far is threaded through every function
  that asks.
\<close>

definition get_num_exec_unit :: "(nat \<Rightarrow> nat) \<Rightarrow> nat \<Rightarrow> nat \<times> nat" where
  "get_num_exec_unit prov c = (prov c, c + 1)"

section \<open>The sequential executor\<close>

text \<open>
  \<^verbatim>\<open>while (first != sent) f(*first++); return first;\<close>
\<close>

partial_function (option) sequential ::
  "(iter \<Rightarrow> 'a) \<Rightarrow> iter \<Rightarrow> iter \<Rightarrow> ('a \<Rightarrow> 's \<Rightarrow> 's) \<Rightarrow> 's \<Rightarrow> (iter \<times> 's) option" where
  "sequential deref first sent f s =
     (if first \<noteq> sent then sequential deref (first + 1) sent f (f (deref first) s)
      else Some (first, s))"

declare sequential.simps [code]

section \<open>The range partitioner\<close>

text \<open>
  The loop of \<^verbatim>\<open>__for_each_partitioner\<close>:
  \<^verbatim>\<open>for (; i != n; i++) { paritions[i] = iter; std::advance(iter, chunkSize); paritions[i + 1] = iter; }\<close>
\<close>

partial_function (option) partitioner_loop ::
  "nat \<Rightarrow> nat \<Rightarrow> nat \<Rightarrow> iter \<Rightarrow> iter list \<Rightarrow> (fault + iter list) option" where
  "partitioner_loop chunkSize n i it paritions =
     (if i \<noteq> n then
        (case vset paritions i it of
           Inl e \<Rightarrow> Some (Inl e)
         | Inr p1 \<Rightarrow>
             (case vset p1 (i + 1) (advance it chunkSize) of
                Inl e \<Rightarrow> Some (Inl e)
              | Inr p2 \<Rightarrow> partitioner_loop chunkSize n (i + 1) (advance it chunkSize) p2))
      else Some (Inr paritions))"

declare partitioner_loop.simps [code]

text \<open>
  \<^verbatim>\<open>__for_each_partitioner(first, sent)\<close>: one query of the provider, the distance, the
  chunk size, a vector of \<open>n + 1\<close> iterators filled by the loop, and the entry at index
  \<open>n\<close> set to the sentinel.
\<close>

definition for_each_partitioner ::
  "(nat \<Rightarrow> nat) \<Rightarrow> iter \<Rightarrow> iter \<Rightarrow> nat \<Rightarrow> (fault + iter list) option \<times> nat" where
  "for_each_partitioner prov first sent c =
     (case get_num_exec_unit prov c of (numProcessingUnits, c1) \<Rightarrow>
        ((case distance first sent of
            Inl e \<Rightarrow> Some (Inl e)
          | Inr n \<Rightarrow>
              if numProcessingUnits = 0 then Some (Inl DivisionByZero)
              else
                (let chunkSize = n div numProcessingUnits in
                 case partitioner_loop chunkSize n 0 first (replicate (n + 1) default_iter) of
                   None \<Rightarrow> None
                 | Some (Inl e) \<Rightarrow> Some (Inl e)
                 | Some (Inr paritions) \<Rightarrow>
                     (case vset paritions n sent of
                        Inl e \<Rightarrow> Some (Inl e)
                      | Inr p \<Rightarrow> Some (Inr p)))),
         c1))"

section \<open>The parallel executor\<close>

text \<open>
  \<^verbatim>\<open>chunked_f\<close>, the body of every worker thread: the sequential walk, its returned
  iterator dropped. A thread is modelled by what it will have done when it finishes, or
  \<open>None\<close> when it never does.
\<close>

definition chunked_f ::
  "(iter \<Rightarrow> 'a) \<Rightarrow> iter \<Rightarrow> iter \<Rightarrow> ('a \<Rightarrow> 's \<Rightarrow> 's) \<Rightarrow> 's \<Rightarrow> 's option" where
  "chunked_f deref first sent f s = map_option snd (sequential deref first sent f s)"

text \<open>
  \<^verbatim>\<open>for (i = 0; i != numProcessingUnits; i++)
      threads.emplace_back(std::thread(std::ref(chunked_f), partitions[i], partitions[i + 1], f));\<close>
\<close>

partial_function (option) spawn_loop ::
  "(iter \<Rightarrow> 'a) \<Rightarrow> iter list \<Rightarrow> ('a \<Rightarrow> 's \<Rightarrow> 's) \<Rightarrow> 's \<Rightarrow> nat \<Rightarrow> nat \<Rightarrow> 's option list
     \<Rightarrow> (fault + 's option list) option" where
  "spawn_loop deref partitions f s numProcessingUnits i threads =
     (if i \<noteq> numProcessingUnits then
        (case vget partitions i of
           Inl e \<Rightarrow> Some (Inl e)
         | Inr b \<Rightarrow>
             (case vget partitions (i + 1) of
                Inl e \<Rightarrow> Some (Inl e)
              | Inr e \<Rightarrow>
                  spawn_loop deref partitions f s numProcessingUnits (i + 1)
                    (threads @ [chunked_f deref b e f s])))
      else Some (Inr threads))"

declare spawn_loop.simps [code]

text \<open>
  \<^verbatim>\<open>for (i = 0; i != numProcessingUnits; i++) threads[i].join();\<close>
  Joining a thread that never finishes never returns.
\<close>

partial_function (option) join_loop ::
  "'s option list \<Rightarrow> nat \<Rightarrow> nat \<Rightarrow> 's list \<Rightarrow> (fault + 's list) option" where
  "join_loop threads numProcessingUnits i joined =
     (if i \<noteq> numProcessingUnits then
        (case vget threads i of
           Inl e \<Rightarrow> Some (Inl e)
         | Inr t \<Rightarrow>
             (case t of
                None \<Rightarrow> None
              | Some w \<Rightarrow> join_loop threads numProcessingUnits (i + 1) (joined @ [w])))
      else Some (Inr joined))"

declare join_loop.simps [code]

text \<open>
  \<^verbatim>\<open>parallel(first, sent, f)\<close>: a query of the provider, the partitioner (which asks the
  provider again), one thread per execution unit, the join of all of them, and the
  sentinel as result. \<^verbatim>\<open>threads.reserve\<close> changes the capacity of the vector of
  threads and not its content; it has no counterpart here.
\<close>

definition parallel ::
  "(nat \<Rightarrow> nat) \<Rightarrow> (iter \<Rightarrow> 'a) \<Rightarrow> iter \<Rightarrow> iter \<Rightarrow> ('a \<Rightarrow> 's \<Rightarrow> 's) \<Rightarrow> 's \<Rightarrow> nat
     \<Rightarrow> (fault + 's list \<times> iter) option \<times> nat" where
  "parallel prov deref first sent f s c =
     (case get_num_exec_unit prov c of (numProcessingUnits, c1) \<Rightarrow>
      case for_each_partitioner prov first sent c1 of (r, c2) \<Rightarrow>
        ((case r of
            None \<Rightarrow> None
          | Some (Inl e) \<Rightarrow> Some (Inl e)
          | Some (Inr partitions) \<Rightarrow>
              (case spawn_loop deref partitions f s numProcessingUnits 0 [] of
                 None \<Rightarrow> None
               | Some (Inl e) \<Rightarrow> Some (Inl e)
               | Some (Inr threads) \<Rightarrow>
                   (case join_loop threads numProcessingUnits 0 [] of
                      None \<Rightarrow> None
                    | Some (Inl e) \<Rightarrow> Some (Inl e)
                    | Some (Inr joined) \<Rightarrow> Some (Inr (joined, sent))))),
         c2))"

section \<open>The dispatcher\<close>

text \<open>
  \<^verbatim>\<open>__pstl_algorithm::operator()(exPolicy, first, sent, args...)\<close>. Its condition is the
  literal \<^verbatim>\<open>true\<close>; the test on the iterator category and on the policy stands in a
  comment. The bodies of both branches are expression statements and the function has no
  \<^verbatim>\<open>return\<close>, so its deduced return type is \<^verbatim>\<open>void\<close>. Whether \<^verbatim>\<open>Iter\<close> is a
  random-access iterator is a property of the type; it is the flag \<open>random_access\<close> here.
\<close>

definition pstl_algorithm_call ::
  "execution_policy \<Rightarrow> bool \<Rightarrow> (nat \<Rightarrow> nat) \<Rightarrow> (iter \<Rightarrow> 'a) \<Rightarrow> iter \<Rightarrow> iter
     \<Rightarrow> ('a \<Rightarrow> 's \<Rightarrow> 's) \<Rightarrow> 's \<Rightarrow> nat \<Rightarrow> (fault + 's effect \<times> retval) option \<times> nat" where
  "pstl_algorithm_call exPolicy random_access prov deref first sent f s c =
     (if True then
        (case parallel prov deref first sent f s c of
           (r, c') \<Rightarrow>
             ((case r of
                 None \<Rightarrow> None
               | Some (Inl e) \<Rightarrow> Some (Inl e)
               | Some (Inr (joined, it)) \<Rightarrow> Some (Inr (Workers joined, Void))),
              c'))
      else
        ((case sequential deref first sent f s of
            None \<Rightarrow> None
          | Some (it, s') \<Rightarrow> Some (Inr (Inline s', Void))),
         c))"

text \<open>
  A provider to run the code on, stable as the specification requires: it answers \<open>u\<close>
  to every query.
\<close>

definition stable_provider :: "nat \<Rightarrow> nat \<Rightarrow> nat" where
  "stable_provider u k = u"

text \<open>The callable that records the elements it is called on, in call order.\<close>

definition record_call :: "'a \<Rightarrow> 'a list \<Rightarrow> 'a list" where
  "record_call x log = log @ [x]"

text \<open>
  The boundary vector in closed form: \<open>n\<close> positions \<open>first + j * chunkSize\<close>, one for each
  \<open>j < n\<close>, followed by the sentinel.
\<close>

definition boundaries :: "iter \<Rightarrow> nat \<Rightarrow> nat \<Rightarrow> iter list" where
  "boundaries first n chunkSize = map (\<lambda>j. first + j * chunkSize) [0..<n] @ [first + n]"

text \<open>
  The partitioner as the specification words it, for comparison with the code: the chunk
  size is the length divided by the unit count \<open>u\<close>, and there are \<open>u + 1\<close> boundaries, got
  by starting at \<open>first\<close> and advancing by the chunk size, the last one forced to the
  sentinel.
\<close>

definition partitioner_spec :: "nat \<Rightarrow> iter \<Rightarrow> iter \<Rightarrow> iter list" where
  "partitioner_spec u first sent =
     (let chunkSize = (sent - first) div u
      in map (\<lambda>j. first + j * chunkSize) [0..<u] @ [sent])"

section \<open>The sequential walk\<close>

text \<open>
  A walk whose sentinel lies \<open>n\<close> steps ahead returns the sentinel, after calling \<open>f\<close> on
  the \<open>n\<close> elements in between, in order.
\<close>

lemma sequential_walk:
  "sequential deref first (first + n) f s =
     Some (first + n, fold f (map deref [first..<first + n]) s)"
proof (induction n arbitrary: first s)
  case 0
  show ?case by (subst sequential.simps) simp
next
  case (Suc n)
  have "sequential deref first (first + Suc n) f s =
          sequential deref (first + 1) ((first + 1) + n) f (f (deref first) s)"
    by (subst sequential.simps) simp
  also have "\<dots> = Some (first + 1 + n,
                     fold f (map deref [first + 1..<first + 1 + n]) (f (deref first) s))"
    by (rule Suc.IH)
  also have "[first..<first + Suc n] = first # [first + 1..<first + 1 + n]"
    by (simp add: upt_conv_Cons)
  ultimately show ?case by simp
qed

text \<open>
  A walk that returns has reached its sentinel from below; one that starts past it never
  returns.
\<close>

lemma sequential_returns_reachable:
  assumes "sequential deref first sent f s = Some r"
  shows "first \<le> sent"
proof (rule sequential.raw_induct[where P = "\<lambda>d a b g t y. a \<le> b", OF _ assms], goal_cases)
  case (1 sq d a b g t y)
  show ?case
  proof (cases "a = b")
    case True
    then show ?thesis by simp
  next
    case False
    with 1(2) have "sq d (a + 1) b g (g (d a) t) = Some y" by simp
    then have "a + 1 \<le> b" by (rule 1(1))
    then show ?thesis by simp
  qed
qed

lemma sequential_unreachable: "sent < first \<Longrightarrow> sequential deref first sent f s = None"
  using sequential_returns_reachable[of deref first sent f s]
  by (cases "sequential deref first sent f s") auto

lemma fold_record_call: "fold record_call xs log = log @ xs"
  by (induction xs arbitrary: log) (simp_all add: record_call_def)

section \<open>The loops in closed form\<close>

text \<open>
  The partitioner's loop, entered at index \<open>i\<close> with the iterator at \<open>b + i * q\<close>, leaves
  the entries below \<open>i\<close> alone and fills the entries \<open>i..n\<close>.
\<close>

lemma partitioner_loop_result:
  assumes "i \<le> n" and "length p = n + 1"
  shows "partitioner_loop q n i (b + i * q) p =
           Some (Inr (if i = n then p else take i p @ map (\<lambda>j. b + j * q) [i..<n + 1]))"
  using assms
proof (induction "n - i" arbitrary: i p)
  case 0
  then have "i = n" by simp
  then show ?case by (subst partitioner_loop.simps) simp
next
  case (Suc m)
  let ?p2 = "p[i := b + i * q, i + 1 := b + (i + 1) * q]"
  from Suc.hyps(2) Suc.prems have lt: "i < n" and m: "m = n - (i + 1)" by simp_all
  have len: "length ?p2 = n + 1" using Suc.prems by simp
  have "partitioner_loop q n i (b + i * q) p = partitioner_loop q n (i + 1) (b + (i + 1) * q) ?p2"
    using lt Suc.prems by (subst partitioner_loop.simps) (simp add: vset_def advance_def add.assoc add.commute[of q])
  also have "\<dots> = Some (Inr (if i + 1 = n then ?p2
                 else take (i + 1) ?p2 @ map (\<lambda>j. b + j * q) [i + 1..<n + 1]))"
    using lt len by (intro Suc.hyps(1)[OF m]) simp_all
  also have "(if i + 1 = n then ?p2
                 else take (i + 1) ?p2 @ map (\<lambda>j. b + j * q) [i + 1..<n + 1])
             = take i p @ map (\<lambda>j. b + j * q) [i..<n + 1]"
  proof (rule nth_equalityI)
    show "length (if i + 1 = n then ?p2
                 else take (i + 1) ?p2 @ map (\<lambda>j. b + j * q) [i + 1..<n + 1]) =
          length (take i p @ map (\<lambda>j. b + j * q) [i..<n + 1])"
      using lt Suc.prems(2) by auto
  next
    fix k
    assume "k < length (if i + 1 = n then ?p2
                 else take (i + 1) ?p2 @ map (\<lambda>j. b + j * q) [i + 1..<n + 1])"
    then have k: "k < n + 1" using lt Suc.prems(2) by (auto split: if_splits)
    consider "k < i" | "k = i" | "i < k" by linarith
    then show "(if i + 1 = n then ?p2
                 else take (i + 1) ?p2 @ map (\<lambda>j. b + j * q) [i + 1..<n + 1]) ! k =
          (take i p @ map (\<lambda>j. b + j * q) [i..<n + 1]) ! k"
    proof cases
      case 1
      then show ?thesis using lt Suc.prems(2) by (simp add: nth_append)
    next
      case 2
      then show ?thesis using lt Suc.prems(2) by (simp add: nth_append)
    next
      case 3
      then show ?thesis using lt k Suc.prems(2) by (auto simp add: nth_append nth_list_update)
    qed
  qed
  finally show ?case using lt by simp
qed

lemma for_each_partitioner_result:
  assumes "prov c \<noteq> 0"
  shows "for_each_partitioner prov first (first + n) c =
           (Some (Inr (boundaries first n (n div prov c))), c + 1)"
proof -
  let ?q = "n div prov c"
  let ?p0 = "replicate (n + 1) default_iter"
  let ?p1 = "if 0 = n then ?p0 else take 0 ?p0 @ map (\<lambda>j. first + j * ?q) [0..<n + 1]"
  have loop: "partitioner_loop ?q n 0 first ?p0 = Some (Inr ?p1)"
    using partitioner_loop_result[of 0 n ?p0 ?q first] by simp
  have len: "length ?p1 = n + 1" by simp
  have fin: "?p1[n := first + n] = boundaries first n ?q"
    unfolding boundaries_def
    by (rule nth_equalityI) (auto simp: nth_append nth_list_update)
  have "for_each_partitioner prov first (first + n) c =
          ((case partitioner_loop ?q n 0 first ?p0 of
              None \<Rightarrow> None
            | Some (Inl e) \<Rightarrow> Some (Inl e)
            | Some (Inr paritions) \<Rightarrow>
                (case vset paritions n (first + n) of
                   Inl e \<Rightarrow> Some (Inl e)
                 | Inr p \<Rightarrow> Some (Inr p))), c + 1)"
    using assms
    by (simp add: for_each_partitioner_def get_num_exec_unit_def distance_def Let_def
          del: replicate_Suc replicate.simps)
  also have "\<dots> = (Some (Inr (?p1[n := first + n])), c + 1)"
    unfolding loop using len by (simp add: vset_def)
  finally show ?thesis unfolding fin .
qed

text \<open>
  The spawn loop reads the boundary vector up to index \<open>u\<close>: it starts \<open>u\<close> threads when
  the vector has more than \<open>u\<close> entries, and reads past the end otherwise.
\<close>

lemma spawn_loop_result:
  assumes "i \<le> u" and "u < length p"
  shows "spawn_loop deref p f s u i threads =
           Some (Inr (threads @ map (\<lambda>j. chunked_f deref (p ! j) (p ! (j + 1)) f s) [i..<u]))"
  using assms
proof (induction "u - i" arbitrary: i threads)
  case 0
  then have "i = u" by simp
  then show ?case by (subst spawn_loop.simps) simp
next
  case (Suc m)
  then have lt: "i < u" and m: "m = u - (i + 1)" by simp_all
  have "spawn_loop deref p f s u i threads =
          spawn_loop deref p f s u (i + 1) (threads @ [chunked_f deref (p ! i) (p ! (i + 1)) f s])"
    using lt Suc.prems by (subst spawn_loop.simps) (simp add: vget_def)
  also have "\<dots> = Some (Inr ((threads @ [chunked_f deref (p ! i) (p ! (i + 1)) f s]) @
                 map (\<lambda>j. chunked_f deref (p ! j) (p ! (j + 1)) f s) [i + 1..<u]))"
    using lt Suc.prems by (intro Suc.hyps(1)[OF m]) simp_all
  finally show ?case using lt by (simp add: upt_conv_Cons)
qed

lemma spawn_loop_fault:
  assumes "i < u" and "length p \<le> u"
  shows "spawn_loop deref p f s u i threads = Some (Inl OutOfBounds)"
  using assms
proof (induction "u - i" arbitrary: i threads)
  case 0
  then show ?case by simp
next
  case (Suc m)
  then have lt: "i < u" and m: "m = u - (i + 1)" by simp_all
  show ?case
  proof (cases "i + 1 < length p")
    case True
    then have "spawn_loop deref p f s u i threads =
          spawn_loop deref p f s u (i + 1) (threads @ [chunked_f deref (p ! i) (p ! (i + 1)) f s])"
      using lt by (subst spawn_loop.simps) (simp add: vget_def)
    also have "\<dots> = Some (Inl OutOfBounds)"
      using True Suc.prems by (intro Suc.hyps(1)[OF m]) simp_all
    finally show ?thesis .
  next
    case False
    then show ?thesis using lt by (subst spawn_loop.simps) (simp add: vget_def)
  qed
qed

text \<open>The join loop returns when every thread finishes, and only then.\<close>

lemma join_loop_result:
  assumes "i \<le> length threads"
  shows "join_loop threads (length threads) i joined =
           (if None \<in> set (drop i threads) then None
            else Some (Inr (joined @ map the (drop i threads))))"
  using assms
proof (induction "length threads - i" arbitrary: i joined)
  case 0
  then have "i = length threads" by simp
  then show ?case by (subst join_loop.simps) simp
next
  case (Suc m)
  then have lt: "i < length threads" and m: "m = length threads - (i + 1)" by simp_all
  have dr: "drop i threads = threads ! i # drop (i + 1) threads"
    using lt by (simp add: Cons_nth_drop_Suc)
  show ?case
  proof (cases "threads ! i")
    case None
    then have "join_loop threads (length threads) i joined = None"
      using lt by (subst join_loop.simps) (simp add: vget_def)
    then show ?thesis using None dr by simp
  next
    case (Some w)
    then have "join_loop threads (length threads) i joined =
            join_loop threads (length threads) (i + 1) (joined @ [w])"
      using lt by (subst join_loop.simps) (simp add: vget_def)
    also have "\<dots> = (if None \<in> set (drop (i + 1) threads) then None
            else Some (Inr ((joined @ [w]) @ map the (drop (i + 1) threads))))"
      using lt by (intro Suc.hyps(1)[OF m]) simp_all
    finally show ?thesis using Some dr by simp
  qed
qed

section \<open>The parallel executor in closed form\<close>

lemma parallel_in_bounds:
  assumes "prov (c + 1) \<noteq> 0" and "prov c \<le> n"
  shows "parallel prov deref first (first + n) f s c =
           ((let p = boundaries first n (n div prov (c + 1));
                 threads = map (\<lambda>j. chunked_f deref (p ! j) (p ! (j + 1)) f s) [0..<prov c]
             in if None \<in> set threads then None
                else Some (Inr (map the threads, first + n))),
            c + 2)"
proof -
  let ?p = "boundaries first n (n div prov (c + 1))"
  let ?threads = "map (\<lambda>j. chunked_f deref (?p ! j) (?p ! (j + 1)) f s) [0..<prov c]"
  have part: "for_each_partitioner prov first (first + n) (c + 1) = (Some (Inr ?p), c + 2)"
    using for_each_partitioner_result[of prov "c + 1" first n] assms(1) by simp
  have "prov c < length ?p" using assms(2) by (simp add: boundaries_def)
  then have spawn: "spawn_loop deref ?p f s (prov c) 0 [] = Some (Inr ?threads)"
    using spawn_loop_result[of 0 "prov c" ?p deref f s "[]"] by simp
  have join: "join_loop ?threads (prov c) 0 [] =
                (if None \<in> set ?threads then None else Some (Inr (map the ?threads)))"
    using join_loop_result[of 0 ?threads "[]"] by simp
  show ?thesis
    unfolding parallel_def get_num_exec_unit_def prod.case part option.case sum.case spawn join Let_def
    by simp
qed

lemma parallel_out_of_bounds:
  assumes "prov (c + 1) \<noteq> 0" and "n < prov c"
  shows "parallel prov deref first (first + n) f s c = (Some (Inl OutOfBounds), c + 2)"
proof -
  let ?p = "boundaries first n (n div prov (c + 1))"
  have part: "for_each_partitioner prov first (first + n) (c + 1) = (Some (Inr ?p), c + 2)"
    using for_each_partitioner_result[of prov "c + 1" first n] assms(1) by simp
  have "0 < prov c" and "length ?p \<le> prov c" using assms(2) by (simp_all add: boundaries_def)
  then have spawn: "spawn_loop deref ?p f s (prov c) 0 [] = Some (Inl OutOfBounds)"
    by (rule spawn_loop_fault)
  show ?thesis
    unfolding parallel_def get_num_exec_unit_def prod.case part option.case sum.case spawn
    by simp
qed

lemma parallel_malformed:
  assumes "sent < first"
  shows "parallel prov deref first sent f s c = (Some (Inl MalformedRange), c + 2)"
  using assms
  by (simp add: parallel_def get_num_exec_unit_def for_each_partitioner_def distance_def)

lemma parallel_division_by_zero:
  assumes "first \<le> sent" and "prov (c + 1) = 0"
  shows "parallel prov deref first sent f s c = (Some (Inl DivisionByZero), c + 2)"
  using assms
  by (simp add: parallel_def get_num_exec_unit_def for_each_partitioner_def distance_def)


lemma boundaries_nth:
  assumes "0 < u" and "u \<le> n" and "j \<le> u"
  shows "boundaries first n (n div u) ! j = first + j * (n div u)"
proof (cases "j < n")
  case True
  then show ?thesis by (simp add: boundaries_def nth_append)
next
  case False
  with assms have "j = n" and "u = n" by simp_all
  then show ?thesis using assms(1) by (simp add: boundaries_def nth_append)
qed

lemma parallel_stable:
  assumes "prov c = u" and "prov (c + 1) = u" and "0 < u" and "u \<le> n"
  shows "parallel prov deref first (first + n) f s c =
           (Some (Inr (map (\<lambda>j. fold f (map deref
                             [first + j * (n div u)..<first + (j + 1) * (n div u)]) s) [0..<u],
                       first + n)),
            c + 2)"
proof -
  let ?q = "n div u"
  let ?p = "boundaries first n ?q"
  let ?w = "\<lambda>j. fold f (map deref [first + j * ?q..<first + (j + 1) * ?q]) s"
  have "chunked_f deref (?p ! j) (?p ! (j + 1)) f s = Some (?w j)" if "j < u" for j
  proof -
    have "?p ! j = first + j * ?q" and "?p ! (j + 1) = (first + j * ?q) + ?q"
      using that assms(3,4) boundaries_nth[of u n j first] boundaries_nth[of u n "j + 1" first]
      by simp_all
    then show ?thesis
      by (simp only: chunked_f_def sequential_walk) (simp add: add.assoc add.commute[of ?q])
  qed
  then have th: "map (\<lambda>j. chunked_f deref (?p ! j) (?p ! (j + 1)) f s) [0..<u] = map (\<lambda>j. Some (?w j)) [0..<u]"
    by simp
  have "None \<notin> set (map (\<lambda>j. Some (?w j)) [0..<u])" by auto
  moreover have "map the (map (\<lambda>j. Some (?w j)) [0..<u]) = map ?w [0..<u]" by simp
  ultimately show ?thesis
    using parallel_in_bounds[of prov c n deref first f s] assms
    by (simp only: th Let_def if_False)
qed

lemma concat_chunks:
  "concat (map (\<lambda>j. map deref [first + j * q..<first + (j + 1) * q]) [0..<u]) =
     map deref [first..<first + u * q]"
proof (induction u)
  case 0
  show ?case by simp
next
  case (Suc u)
  have e: "first + (u + 1) * q = first + u * q + q" and e': "first + Suc u * q = first + u * q + q"
    by simp_all
  have "[first..<first + u * q + q] = [first..<first + u * q] @ [first + u * q..<first + u * q + q]"
    by (rule upt_add_eq_append) simp
  then have "map deref [first..<first + Suc u * q] =
               map deref [first..<first + u * q] @ map deref [first + u * q..<first + (u + 1) * q]"
    by (simp only: e e' map_append)
  moreover have "concat (map (\<lambda>j. map deref [first + j * q..<first + (j + 1) * q]) [0..<Suc u]) =
                   concat (map (\<lambda>j. map deref [first + j * q..<first + (j + 1) * q]) [0..<u]) @
                   map deref [first + u * q..<first + (u + 1) * q]"
    by simp
  ultimately show ?case by (simp only: Suc.IH)
qed

lemma parallel_visits:
  assumes "prov c = u" and "prov (c + 1) = u" and "0 < u" and "u \<le> n"
  shows "parallel prov deref first (first + n) record_call [] c =
           (Some (Inr (map (\<lambda>j. map deref [first + j * (n div u)..<first + (j + 1) * (n div u)])
                         [0..<u], first + n)), c + 2) \<and>
         concat (map (\<lambda>j. map deref [first + j * (n div u)..<first + (j + 1) * (n div u)]) [0..<u]) =
           map deref [first..<first + u * (n div u)]"
  using parallel_stable[OF assms, of deref first record_call "[]"]
  by (simp only: fold_record_call append_Nil concat_chunks)

text \<open>
  When the number of units divides the length, the workers' logs, one after the other,
  are the whole range in order: every element is visited exactly once.
\<close>

lemma parallel_visits_all_when_divisible:
  assumes "prov c = u" and "prov (c + 1) = u" and "0 < u" and "u \<le> n" and "u dvd n"
  shows "parallel prov deref first (first + n) record_call [] c =
           (Some (Inr (map (\<lambda>j. map deref [first + j * (n div u)..<first + (j + 1) * (n div u)])
                         [0..<u], first + n)), c + 2) \<and>
         concat (map (\<lambda>j. map deref [first + j * (n div u)..<first + (j + 1) * (n div u)]) [0..<u]) =
           map deref [first..<first + n]"
proof -
  from assms(5) have "u * (n div u) = n" by simp
  with parallel_visits[OF assms(1-4), of deref first] show ?thesis by simp
qed

section \<open>Claims about the sequential executor\<close>

text \<open>
  C8. For every range \<open>[first, last)\<close> of length \<open>n\<close> and every callable, the sequential
  walk calls the callable exactly \<open>n\<close> times, on the elements of the range in iterator
  order, and returns an iterator equal to \<open>last\<close>: the callable's final state is the fold
  of \<open>f\<close> over the elements from left to right, and the recording callable ends with a
  log of the \<open>n\<close> elements in range order.
\<close>

theorem sequential_visits_range_in_order:
  "sequential deref first (first + n) f s =
     Some (first + n, fold f (map deref [first..<first + n]) s) \<and>
   sequential deref first (first + n) record_call log =
     Some (first + n, log @ map deref [first..<first + n]) \<and>
   length (map deref [first..<first + n]) = n"
  by (simp add: sequential_walk fold_record_call)

text \<open>
  C10. The sequential walk terminates on every range whose sentinel is reachable from
  \<open>first\<close> in finitely many single steps, that is, whose distance \<open>d\<close> exists: the walk
  returns, and as long as the sentinel is not reached, one iteration continues the walk
  from \<open>first + 1\<close>, whose distance to the sentinel is a natural number below \<open>d\<close>.
\<close>

theorem sequential_terminates:
  assumes "distance first sent = Inr d"
  shows "(\<exists>r. sequential deref first sent f s = Some r) \<and>
         (first \<noteq> sent \<longrightarrow>
            sequential deref first sent f s =
              sequential deref (first + 1) sent f (f (deref first) s) \<and>
            (\<exists>d'. distance (first + 1) sent = Inr d' \<and> d' < d))"
proof -
  from assms have le: "first \<le> sent" and d: "d = sent - first"
    by (auto simp: distance_def split: if_splits)
  then have "sent = first + d" by simp
  then have returns: "\<exists>r. sequential deref first sent f s = Some r"
    using sequential_walk[of deref first d f s] by simp
  have step: "sequential deref first sent f s =
                sequential deref (first + 1) sent f (f (deref first) s)" if "first \<noteq> sent"
    using that by (subst sequential.simps) simp
  have variant: "\<exists>d'. distance (first + 1) sent = Inr d' \<and> d' < d" if "first \<noteq> sent"
    using that le d by (simp add: distance_def)
  from returns step variant show ?thesis by blast
qed

theorem sequential_terminates_witness:
  "distance 2 5 = Inr 3 \<and>
   (\<exists>r. sequential id 2 5 record_call ([] :: nat list) = Some r) \<and>
   (2 :: nat) \<noteq> 5 \<and>
   sequential id 2 5 record_call ([] :: nat list) =
     sequential id (2 + 1) 5 record_call (record_call (id 2) []) \<and>
   (\<exists>d'. distance (2 + 1) 5 = Inr d' \<and> d' < 3)"
proof -
  have h: "distance 2 5 = Inr 3" by (simp add: distance_def)
  have ne: "(2 :: nat) \<noteq> 5" by simp
  from sequential_terminates[OF h, of id record_call "[] :: nat list"] h ne show ?thesis
    by blast
qed

section \<open>Claims about the parallel executor and the partitioner\<close>

text \<open>
  C1. A parallel call over a range of length \<open>N\<close> on \<open>U \<ge> 1\<close> execution units calls the
  callable exactly once on every element of the range, \<open>N\<close> calls in all. The code does
  not: on the range of the seven elements 1 to 7 and three units, the three workers
  visit 1, 2 and 3, 4 and 5, 6, and the call returns the sentinel with the element 7 never
  visited.
\<close>

theorem parallel_skips_remainder:
  "parallel (stable_provider 3) Suc 0 7 record_call [] 0 =
     (Some (Inr ([[1, 2], [3, 4], [5, 6]], 7)), 2)"
  by code_simp

text \<open>
  C2. The \<open>U\<close> partitions read by the parallel executor, the pairs of entries \<open>i\<close> and
  \<open>i + 1\<close> of the boundary vector for \<open>i < U\<close>, cover the range: the first boundary is
  \<open>first\<close> and the last boundary read is \<open>last\<close>. The code does not: for ten elements and
  four units the vector has eleven entries, and the entry at index 4, the last one read,
  is the position 8, not the sentinel 10.
\<close>

theorem consumed_boundaries_stop_short:
  "for_each_partitioner (stable_provider 4) 0 10 0 =
     (Some (Inr [0, 2, 4, 6, 8, 10, 12, 14, 16, 18, 10]), 1) \<and>
   vget [0, 2, 4, 6, 8, 10, 12, 14, 16, 18, 10 :: nat] 0 = Inr 0 \<and>
   vget [0, 2, 4, 6, 8, 10, 12, 14, 16, 18, 10 :: nat] 4 = Inr 8"
  by code_simp

text \<open>
  C3. For a length \<open>N = q * U + r\<close> with \<open>r < U\<close>, the first \<open>U - 1\<close> partitions read by
  the parallel executor have \<open>q\<close> elements each and the last one has \<open>q + r\<close>. The code
  does not: for five elements and two units, \<open>q = 2\<close> and \<open>r = 1\<close>, the second and last
  worker walks the two elements at the positions 2 and 3, not three elements.
\<close>

theorem final_partition_without_remainder:
  "for_each_partitioner (stable_provider 2) 0 5 0 = (Some (Inr [0, 2, 4, 6, 8, 5]), 1) \<and>
   parallel (stable_provider 2) id 0 5 record_call [] 0 = (Some (Inr ([[0, 1], [2, 3]], 5)), 2)"
  by code_simp

text \<open>
  C4. With more units than elements, also on the empty range, the parallel path runs
  without fault: every read of the boundary vector is in bounds and the callable is
  called once per element. The code does not: for the empty range and one unit the
  vector has the single entry \<open>partitions[0]\<close> and the spawn loop reads \<open>partitions[1]\<close>;
  for five elements and ten units the vector has six entries and the loop reads past it.
\<close>

theorem parallel_reads_past_boundary_vector:
  "parallel (stable_provider 1) id 0 0 record_call [] 0 = (Some (Inl OutOfBounds), 2) \<and>
   for_each_partitioner (stable_provider 1) 0 0 0 = (Some (Inr [0]), 1) \<and>
   vget [0 :: nat] 1 = Inl OutOfBounds \<and>
   parallel (stable_provider 10) id 0 5 record_call [] 0 = (Some (Inl OutOfBounds), 2)"
  by code_simp

text \<open>
  C5. The partitioner divides the length by the unit count and returns \<open>U + 1\<close>
  boundaries, got by advancing \<open>U\<close> times by the chunk size, the last one forced to the
  sentinel. The code sizes the vector and bounds the loop by the length instead of the
  unit count: for six elements and two units it returns seven boundaries, where the
  partitioner of the specification returns the three boundaries 0, 3, 6.
\<close>

theorem partitioner_returns_one_boundary_per_element:
  "for_each_partitioner (stable_provider 2) 0 6 0 = (Some (Inr [0, 3, 6, 9, 12, 15, 6]), 1) \<and>
   partitioner_spec 2 0 6 = [0, 3, 6] \<and>
   length [0, 3, 6, 9, 12, 15, 6 :: nat] = 6 + 1"
  by code_simp




section \<open>Claims about the dispatcher\<close>

text \<open>The dispatcher is the parallel executor, whatever the policy and the iterator category.\<close>

lemma pstl_algorithm_call_parallel:
  "pstl_algorithm_call exPolicy random_access prov deref first sent f s c =
     (case parallel prov deref first sent f s c of
        (r, c') \<Rightarrow>
          ((case r of
              None \<Rightarrow> None
            | Some (Inl e) \<Rightarrow> Some (Inl e)
            | Some (Inr (joined, it)) \<Rightarrow> Some (Inr (Workers joined, Void))),
           c'))"
  by (simp add: pstl_algorithm_call_def)

lemma pstl_algorithm_call_void:
  assumes "fst (pstl_algorithm_call exPolicy random_access prov deref first sent f s c) =
             Some (Inr (eff, r))"
  shows "r = Void \<and> (\<exists>joined. eff = Workers joined)"
  using assms
  by (auto simp: pstl_algorithm_call_parallel split: prod.splits option.splits sum.splits)

text \<open>
  C6. The dispatcher returns the sentinel it was given. The code does not: both branches
  of \<^verbatim>\<open>operator()\<close> drop the iterator that \<open>parallel\<close> and \<open>sequential\<close> return, and
  the call returns nothing. On four elements and two units \<open>parallel\<close> returns the
  sentinel 4 and the dispatcher returns \<open>Void\<close>.
\<close>

theorem dispatcher_returns_nothing:
  "pstl_algorithm_call parallel_policy True (stable_provider 2) id 0 4 record_call [] 0 =
     (Some (Inr (Workers [[0, 1], [2, 3]], Void)), 2) \<and>
   parallel (stable_provider 2) id 0 4 record_call [] 0 = (Some (Inr ([[0, 1], [2, 3]], 4)), 2) \<and>
   Void \<noteq> Returned 4"
  by code_simp

text \<open>
  C7. The dispatcher takes the parallel path exactly when the policy asks for parallel
  execution and the iterators are random-access, and the sequential path otherwise. The
  code does not: its condition is the constant \<^verbatim>\<open>true\<close>. A call with the sequenced
  policy, and a call on iterators that are not random-access, both run two workers and
  ask the provider twice, where the sequential path is one inline walk.
\<close>

theorem dispatcher_ignores_policy:
  "pstl_algorithm_call sequenced_policy True (stable_provider 2) id 0 4 record_call [] 0 =
     (Some (Inr (Workers [[0, 1], [2, 3]], Void)), 2) \<and>
   pstl_algorithm_call parallel_policy False (stable_provider 2) id 0 4 record_call [] 0 =
     (Some (Inr (Workers [[0, 1], [2, 3]], Void)), 2) \<and>
   sequential id 0 4 record_call [] = Some (4, [0, 1, 2, 3])"
  by code_simp

end
